theory Spec2Isabelle
  imports Main
begin

section \<open>Task status records (include/swift/ABI/TaskStatus.h)\<close>

subsection \<open>Pointers, failures and external calls\<close>

text \<open>
  Objects are identified by their address. A C++ pointer is an optional address:
  \<open>None\<close> is \<open>nullptr\<close>. Every non-null \<open>AsyncTask *\<close> designates a task of the
  store (the C++ type promises as much); dereferencing \<open>nullptr\<close> is a failure of
  the model, and so is a failed \<open>assert\<close> (the assertions are modelled as checked,
  as in a debug build).
\<close>

type_synonym addr = nat
type_synonym AsyncTask_ptr = "addr option"
type_synonym TaskGroup_ptr = "addr option"
type_synonym DefaultActor_ptr = "addr option"
type_synonym ContinuationAsyncContext_ptr = "addr option"
type_synonym TaskStatusRecord_ptr = "addr option"
type_synonym JobPriority = nat

datatype error = AssertionFailure | NullDereference

text \<open>
  The runtime entry points that the header calls but does not define. A call is
  recorded as an event; the functions below return the events they emit, in order.
\<close>

datatype extern_call =
    swift_retain AsyncTask_ptr
  | swift_release AsyncTask_ptr
  | swift_task_escalate AsyncTask_ptr JobPriority
  | swift_actor_escalate DefaultActor_ptr AsyncTask_ptr JobPriority

subsection \<open>The task object, as far as the header reaches into it\<close>

text \<open>
  Modelled from the spec: \<open>AsyncTask\<close> is declared in swift/ABI/Task.h, which is not
  part of the sources at hand. The header uses three things of a task: the successor
  slot of its child fragment (\<open>childFragment()->getNextChild()\<close> and
  \<open>setNextChild\<close>), whether it has a group child fragment
  (\<open>hasGroupChildFragment()\<close>), and which group that fragment names
  (\<open>groupChildFragment()->getGroup()\<close>). \<open>groupChildFragment = None\<close> means the
  task has no group child fragment.
\<close>

record AsyncTask =
  NextChild :: AsyncTask_ptr
  groupChildFragment :: "TaskGroup_ptr option"

type_synonym task_store = "addr \<Rightarrow> AsyncTask"

definition hasGroupChildFragment :: "AsyncTask \<Rightarrow> bool" where
  "hasGroupChildFragment t = (groupChildFragment t \<noteq> None)"

definition setNextChild :: "task_store \<Rightarrow> addr \<Rightarrow> AsyncTask_ptr \<Rightarrow> task_store" where
  "setNextChild h a n = h(a := (h a)\<lparr>NextChild := n\<rparr>)"

text \<open>\<open>getNextChildTask(task)\<close> is \<open>task->childFragment()->getNextChild()\<close>.\<close>

definition getNextChildTask :: "task_store \<Rightarrow> AsyncTask_ptr \<Rightarrow> error + AsyncTask_ptr" where
  "getNextChildTask h task =
     (case task of None \<Rightarrow> Inl NullDereference | Some a \<Rightarrow> Inr (NextChild (h a)))"

subsection \<open>TaskStatusRecord\<close>

text \<open>
  Modelled from the spec: \<open>TaskStatusRecordKind\<close> and \<open>TaskStatusRecordFlags\<close> are
  declared in swift/ABI/MetadataValues.h, which is not part of the sources at hand.
  The kinds are the ones this header names; the flags word is modelled by the kind
  it is built from and that \<open>getKind\<close> reads back.
\<close>

datatype TaskStatusRecordKind =
    Deadline | ChildTask | TaskGroup | CancellationNotification
  | EscalationNotification | TaskDependency

datatype TaskStatusRecordFlags = TaskStatusRecordFlags TaskStatusRecordKind

fun Flags_getKind :: "TaskStatusRecordFlags \<Rightarrow> TaskStatusRecordKind" where
  "Flags_getKind (TaskStatusRecordFlags k) = k"

text \<open>
  The base class. The derived classes extend the record, so that a function on
  \<open>'a TaskStatusRecord_scheme\<close> is a member function of the base class applied
  to any record, with the fields of the derived class in \<open>TaskStatusRecord.more\<close>.
\<close>

record TaskStatusRecord =
  Flags :: TaskStatusRecordFlags
  Parent :: TaskStatusRecord_ptr

definition getKind :: "'a TaskStatusRecord_scheme \<Rightarrow> TaskStatusRecordKind" where
  "getKind r = Flags_getKind (Flags r)"

definition getParent :: "'a TaskStatusRecord_scheme \<Rightarrow> TaskStatusRecord_ptr" where
  "getParent r = Parent r"

definition resetParent ::
  "'a TaskStatusRecord_scheme \<Rightarrow> TaskStatusRecord_ptr \<Rightarrow> 'a TaskStatusRecord_scheme" where
  "resetParent r newParent = r\<lparr>Parent := newParent\<rparr>"

definition spliceParent ::
  "'a TaskStatusRecord_scheme \<Rightarrow> TaskStatusRecord_ptr \<Rightarrow> 'a TaskStatusRecord_scheme" where
  "spliceParent r newParent = r\<lparr>Parent := newParent\<rparr>"

text \<open>
  The constructor \<open>TaskStatusRecord(kind, parent)\<close>: \<open>Flags(kind)\<close>, then
  \<open>resetParent(parent)\<close>. The third argument carries the fields of the derived
  class. \<open>Parent\<close> is not initialised before \<open>resetParent\<close> writes it; the value
  it has until then is never read.
\<close>

definition TaskStatusRecord_init ::
  "TaskStatusRecordKind \<Rightarrow> TaskStatusRecord_ptr \<Rightarrow> 'a \<Rightarrow> 'a TaskStatusRecord_scheme" where
  "TaskStatusRecord_init kind parent derived =
     resetParent \<lparr>Flags = TaskStatusRecordFlags kind, Parent = None, \<dots> = derived\<rparr> parent"

subsection \<open>ChildTaskStatusRecord\<close>

record ChildTaskStatusRecord = TaskStatusRecord +
  FirstChild :: AsyncTask_ptr

text \<open>\<open>ChildTaskStatusRecord(AsyncTask *child)\<close>: no assertion in its body.\<close>

definition ChildTaskStatusRecord_child :: "AsyncTask_ptr \<Rightarrow> ChildTaskStatusRecord" where
  "ChildTaskStatusRecord_child child =
     TaskStatusRecord_init ChildTask None \<lparr>FirstChild = child\<rparr>"

text \<open>\<open>ChildTaskStatusRecord(AsyncTask *child, TaskStatusRecordKind kind)\<close>.\<close>

definition ChildTaskStatusRecord_child_kind ::
  "task_store \<Rightarrow> AsyncTask_ptr \<Rightarrow> TaskStatusRecordKind \<Rightarrow> error + ChildTaskStatusRecord" where
  "ChildTaskStatusRecord_child_kind h child kind =
     (let r = TaskStatusRecord_init kind None \<lparr>FirstChild = child\<rparr> in
      if kind \<noteq> ChildTask then Inl AssertionFailure
      else case child of
             None \<Rightarrow> Inl NullDereference
           | Some c \<Rightarrow> if hasGroupChildFragment (h c) then Inl AssertionFailure else Inr r)"

subsection \<open>TaskGroupTaskStatusRecord\<close>

record TaskGroupTaskStatusRecord = TaskStatusRecord +
  FirstChild :: AsyncTask_ptr
  LastChild :: AsyncTask_ptr

text \<open>\<open>TaskGroupTaskStatusRecord()\<close>.\<close>

definition TaskGroupTaskStatusRecord_new :: TaskGroupTaskStatusRecord where
  "TaskGroupTaskStatusRecord_new =
     TaskStatusRecord_init TaskGroup None \<lparr>FirstChild = None, LastChild = None\<rparr>"

text \<open>\<open>TaskGroupTaskStatusRecord(AsyncTask *child)\<close>.\<close>

definition TaskGroupTaskStatusRecord_child ::
  "task_store \<Rightarrow> AsyncTask_ptr \<Rightarrow> error + TaskGroupTaskStatusRecord" where
  "TaskGroupTaskStatusRecord_child h child =
     (let r = TaskStatusRecord_init TaskGroup None \<lparr>FirstChild = child, LastChild = child\<rparr> in
      case LastChild r of
        None \<Rightarrow> Inr r
      | Some l \<Rightarrow> if NextChild (h l) = None then Inr r else Inl AssertionFailure)"

text \<open>\<open>getGroup()\<close> reinterprets \<open>this\<close>, the address of the record.\<close>

definition getGroup :: "addr \<Rightarrow> TaskGroup_ptr" where
  "getGroup this = Some this"

definition getFirstChild :: "TaskGroupTaskStatusRecord \<Rightarrow> AsyncTask_ptr" where
  "getFirstChild r = FirstChild r"

text \<open>
  \<open>attachChild(child)\<close>, on the record \<open>r\<close> at address \<open>this\<close>. It returns the
  record and the store of tasks as it leaves them.
\<close>

definition attachChild ::
  "addr \<Rightarrow> TaskGroupTaskStatusRecord \<Rightarrow> task_store \<Rightarrow> AsyncTask_ptr
     \<Rightarrow> error + (TaskGroupTaskStatusRecord \<times> task_store)" where
  "attachChild this r h child =
     (case child of
        None \<Rightarrow> Inl NullDereference
      | Some c \<Rightarrow>
          if \<not> hasGroupChildFragment (h c) then Inl AssertionFailure
          else if groupChildFragment (h c) \<noteq> Some (getGroup this) then Inl AssertionFailure
          else
            (let oldLastChild = LastChild r;
                 r1 = r\<lparr>LastChild := child\<rparr>
             in if FirstChild r1 = None then Inr (r1\<lparr>FirstChild := child\<rparr>, h)
                else (case oldLastChild of
                        None \<Rightarrow> Inl NullDereference
                      | Some l \<Rightarrow> Inr (r1, setNextChild h l child))))"

text \<open>
  The \<open>while (prev)\<close> loop of \<open>detachChild\<close>, on the record and the store
  \<open>s = (r, h)\<close>. The loop has no bound of its own: on a cyclic chain that never
  reaches \<open>child\<close> it runs forever, which is the value \<open>None\<close> here.
\<close>

partial_function (option) detachChild_loop ::
  "TaskGroupTaskStatusRecord \<times> task_store \<Rightarrow> AsyncTask_ptr \<Rightarrow> AsyncTask_ptr
     \<Rightarrow> (error + (TaskGroupTaskStatusRecord \<times> task_store)) option" where
  "detachChild_loop s child prev =
     (case s of (r, h) \<Rightarrow>
       (case prev of
          None \<Rightarrow> Some (Inr (r, h))
        | Some p \<Rightarrow>
            let afterPrev = NextChild (h p) in
            if afterPrev = child then
              (case getNextChildTask h child of
                 Inl e \<Rightarrow> Some (Inl e)
               | Inr afterChild \<Rightarrow>
                   let h1 = setNextChild h p afterChild in
                   if child = LastChild r then Some (Inr (r\<lparr>LastChild := Some p\<rparr>, h1))
                   else Some (Inr (r, h1)))
            else detachChild_loop (r, h) child afterPrev))"

text \<open>
  \<open>detachChild(child)\<close>. \<open>None\<close> is a call that does not return; \<open>Some (Inl e)\<close>
  is a call that fails; \<open>Some (Inr (r', h'))\<close> is a call that returns, leaving the
  record \<open>r'\<close> and the store \<open>h'\<close>.
\<close>

definition detachChild ::
  "TaskGroupTaskStatusRecord \<Rightarrow> task_store \<Rightarrow> AsyncTask_ptr
     \<Rightarrow> (error + (TaskGroupTaskStatusRecord \<times> task_store)) option" where
  "detachChild r h child =
     (if child = None then Some (Inl AssertionFailure)
      else if FirstChild r = child then
        (case getNextChildTask h child of
           Inl e \<Rightarrow> Some (Inl e)
         | Inr n \<Rightarrow>
             let r1 = r\<lparr>FirstChild := n\<rparr> in
             if FirstChild r1 = None then Some (Inr (r1\<lparr>LastChild := None\<rparr>, h))
             else Some (Inr (r1, h)))
      else detachChild_loop (r, h) child (FirstChild r))"

text \<open>
  Modelled from the spec: \<open>children()\<close> is \<open>child_iterator::rangeBeginning(getFirstChild())\<close>,
  and \<open>LinkedListIterator\<close> is declared outside the sources at hand. By the spec the
  range yields the child handles "by repeatedly following each child's own successor
  slot until exhausted" and ends "when a child has no recorded successor".
  \<open>children_from\<close> collects what the range yields; a range that never ends is \<open>None\<close>.
\<close>

partial_function (option) children_from :: "task_store \<Rightarrow> AsyncTask_ptr \<Rightarrow> addr list option" where
  "children_from h p =
     (case p of
        None \<Rightarrow> Some []
      | Some a \<Rightarrow>
          Option.bind (children_from h (NextChild (h a))) (\<lambda>as. Some (a # as)))"

definition children :: "TaskGroupTaskStatusRecord \<Rightarrow> task_store \<Rightarrow> addr list option" where
  "children r h = children_from h (getFirstChild r)"

subsection \<open>TaskDependencyStatusRecord\<close>

datatype DependencyKind =
  WaitingOnContinuation | WaitingOnTask | WaitingOnTaskGroup | WaitingOnActor

text \<open>
  The union \<open>WaitingOn\<close> is one word of storage read as a pointer to a continuation,
  a task, a task group or an actor; it is modelled as the address it holds.
\<close>

record TaskDependencyStatusRecord = TaskStatusRecord +
  DependencyKind :: DependencyKind
  WaitingOn :: "addr option"

text \<open>The four constructors, each with the external calls it makes.\<close>

definition TaskDependencyStatusRecord_continuation ::
  "ContinuationAsyncContext_ptr \<Rightarrow> TaskDependencyStatusRecord \<times> extern_call list" where
  "TaskDependencyStatusRecord_continuation continuation =
     (TaskStatusRecord_init TaskDependency None
        \<lparr>DependencyKind = WaitingOnContinuation, WaitingOn = continuation\<rparr>, [])"

definition TaskDependencyStatusRecord_task ::
  "AsyncTask_ptr \<Rightarrow> TaskDependencyStatusRecord \<times> extern_call list" where
  "TaskDependencyStatusRecord_task task =
     (TaskStatusRecord_init TaskDependency None
        \<lparr>DependencyKind = WaitingOnTask, WaitingOn = task\<rparr>, [swift_retain task])"

definition TaskDependencyStatusRecord_taskGroup ::
  "TaskGroup_ptr \<Rightarrow> TaskDependencyStatusRecord \<times> extern_call list" where
  "TaskDependencyStatusRecord_taskGroup taskGroup =
     (TaskStatusRecord_init TaskDependency None
        \<lparr>DependencyKind = WaitingOnTaskGroup, WaitingOn = taskGroup\<rparr>, [])"

definition TaskDependencyStatusRecord_actor ::
  "DefaultActor_ptr \<Rightarrow> TaskDependencyStatusRecord \<times> extern_call list" where
  "TaskDependencyStatusRecord_actor actor =
     (TaskStatusRecord_init TaskDependency None
        \<lparr>DependencyKind = WaitingOnActor, WaitingOn = actor\<rparr>, [])"

text \<open>
  \<open>performEscalationAction(newPriority)\<close>. The identifier \<open>task\<close> that the
  \<open>WaitingOnActor\<close> case passes on is not declared in this header; it is the first
  parameter here.
\<close>

definition performEscalationAction ::
  "AsyncTask_ptr \<Rightarrow> TaskDependencyStatusRecord \<Rightarrow> JobPriority \<Rightarrow> extern_call list" where
  "performEscalationAction task r newPriority =
     (case DependencyKind r of
        WaitingOnContinuation \<Rightarrow> []
      | WaitingOnTaskGroup \<Rightarrow> []
      | WaitingOnTask \<Rightarrow> [swift_task_escalate (WaitingOn r) newPriority]
      | WaitingOnActor \<Rightarrow> [swift_actor_escalate (WaitingOn r) task newPriority])"

text \<open>
  Modelled from the spec: a record is unregistered by the runtime's
  \<open>removeStatusRecord\<close>, which is not part of the sources at hand; the header only
  says of the retained task "Released when this record is removed from the active
  task status". By the spec a waiting-on-task record "holds one incremented
  reference, released on unregistration", and the other three kinds hold no
  reference of their own. This is the release that unregistering a dependency
  record performs.
\<close>

definition removeStatusRecord_dependency :: "TaskDependencyStatusRecord \<Rightarrow> extern_call list" where
  "removeStatusRecord_dependency r =
     (case DependencyKind r of
        WaitingOnTask \<Rightarrow> [swift_release (WaitingOn r)]
      | WaitingOnContinuation \<Rightarrow> []
      | WaitingOnTaskGroup \<Rightarrow> []
      | WaitingOnActor \<Rightarrow> [])"

text \<open>A store for the examples: no task has a successor, every task is a member
  of the group whose record lives at address 100.\<close>

definition store0 :: task_store where
  "store0 = (\<lambda>a. \<lparr>NextChild = None, groupChildFragment = Some (Some 100)\<rparr>)"

subsection \<open>Child lists in the store\<close>

text \<open>
  \<open>linked h p as q\<close>: following the successor slots from the pointer \<open>p\<close> visits
  exactly the tasks \<open>as\<close>, in this order, and the successor slot of the last of
  them holds \<open>q\<close>. A child list is such a chain that ends in \<open>nullptr\<close>.
\<close>

fun linked :: "task_store \<Rightarrow> AsyncTask_ptr \<Rightarrow> addr list \<Rightarrow> AsyncTask_ptr \<Rightarrow> bool" where
  "linked h p [] q = (p = q)"
| "linked h p (a # as) q = (p = Some a \<and> linked h (NextChild (h a)) as q)"

definition child_list :: "task_store \<Rightarrow> AsyncTask_ptr \<Rightarrow> addr list \<Rightarrow> bool" where
  "child_list h p as = linked h p as None"

text \<open>
  The data invariant of a group record, with the list \<open>as\<close> of its children: the
  chain from \<open>FirstChild\<close> is \<open>as\<close>, and \<open>LastChild\<close> is its last element
  (\<open>nullptr\<close> when there is none).
\<close>

definition group_list :: "TaskGroupTaskStatusRecord \<Rightarrow> task_store \<Rightarrow> addr list \<Rightarrow> bool" where
  "group_list r h as =
     (child_list h (FirstChild r) as
      \<and> LastChild r = (if as = [] then None else Some (last as)))"

text \<open>
  The first \<open>n\<close> handles that the range of \<open>children()\<close> yields from \<open>p\<close> (all of
  them when the range ends earlier).
\<close>

fun children_upto :: "nat \<Rightarrow> task_store \<Rightarrow> AsyncTask_ptr \<Rightarrow> addr list" where
  "children_upto 0 h p = []"
| "children_upto (Suc n) h p =
     (case p of None \<Rightarrow> [] | Some a \<Rightarrow> a # children_upto n h (NextChild (h a)))"

subsection \<open>Sequences of calls on one group record\<close>

datatype group_call = AttachChild AsyncTask_ptr | DetachChild AsyncTask_ptr

text \<open>
  The calls are made one after the other on the record at address \<open>this\<close>; a call
  that fails or does not return ends the run.
\<close>

fun run_calls ::
  "addr \<Rightarrow> group_call list \<Rightarrow> TaskGroupTaskStatusRecord \<times> task_store
     \<Rightarrow> (error + (TaskGroupTaskStatusRecord \<times> task_store)) option" where
  "run_calls this [] s = Some (Inr s)"
| "run_calls this (AttachChild c # cs) (r, h) =
     (case attachChild this r h c of
        Inl e \<Rightarrow> Some (Inl e)
      | Inr s' \<Rightarrow> run_calls this cs s')"
| "run_calls this (DetachChild c # cs) (r, h) =
     (case detachChild r h c of
        None \<Rightarrow> None
      | Some (Inl e) \<Rightarrow> Some (Inl e)
      | Some (Inr s') \<Rightarrow> run_calls this cs s')"

text \<open>
  The children that a sequence of calls leaves attached, in the order of their
  attachment, starting from the children \<open>as\<close>: the specification of \<open>children()\<close>.
\<close>

fun attached :: "addr list \<Rightarrow> group_call list \<Rightarrow> addr list" where
  "attached as [] = as"
| "attached as (AttachChild c # cs) = attached (as @ (case c of None \<Rightarrow> [] | Some a \<Rightarrow> [a])) cs"
| "attached as (DetachChild c # cs) = attached (filter (\<lambda>a. Some a \<noteq> c) as) cs"

text \<open>
  What a sequence of calls has to respect, from the record and store \<open>(r, h)\<close>
  with the children \<open>as\<close> attached: a child that is attached is not null, is a
  member of this group, is not in the list at that moment and has an empty successor
  slot at that moment; a child that is detached is not null. The conditions on a call
  are about the record and the store that the calls before it have left.
\<close>

fun permitted ::
  "addr \<Rightarrow> group_call list \<Rightarrow> TaskGroupTaskStatusRecord \<times> task_store \<Rightarrow> addr list \<Rightarrow> bool" where
  "permitted this [] s as = True"
| "permitted this (AttachChild c # cs) (r, h) as =
     (case c of
        None \<Rightarrow> False
      | Some a \<Rightarrow>
          a \<notin> set as \<and> NextChild (h a) = None
          \<and> groupChildFragment (h a) = Some (getGroup this)
          \<and> (case attachChild this r h c of
                Inl e \<Rightarrow> True
              | Inr s' \<Rightarrow> permitted this cs s' (as @ [a])))"
| "permitted this (DetachChild c # cs) (r, h) as =
     (c \<noteq> None
      \<and> (case detachChild r h c of
            Some (Inr s') \<Rightarrow> permitted this cs s' (filter (\<lambda>a. Some a \<noteq> c) as)
          | _ \<Rightarrow> True))"

text \<open>The children 1, 2, 3 linked in this order, and a group record for them.\<close>

definition store123 :: task_store where
  "store123 = setNextChild (setNextChild store0 1 (Some 2)) 2 (Some 3)"

definition group123 :: TaskGroupTaskStatusRecord where
  "group123 = TaskGroupTaskStatusRecord_new\<lparr>FirstChild := Some 1, LastChild := Some 3\<rparr>"

section \<open>The status record node\<close>

text \<open>
  C9. \<open>resetParent(p)\<close> is a pure link update, for a record of any class: afterwards
  \<open>getParent()\<close> is \<open>p\<close>, \<open>getKind()\<close> is what it was (and, for a record that
  comes from the constructor, the kind given there), the flags are unchanged and so
  are all the fields of the derived class.
\<close>

theorem resetParent_link_update_only:
  "getParent (resetParent r p) = p
   \<and> getKind (resetParent r p) = getKind r
   \<and> Flags (resetParent r p) = Flags r
   \<and> TaskStatusRecord.more (resetParent r p) = TaskStatusRecord.more r
   \<and> getKind (resetParent (TaskStatusRecord_init kind q derived) p) = kind
   \<and> TaskStatusRecord.more (resetParent (TaskStatusRecord_init kind q derived) p) = derived"
  by (simp add: resetParent_def getParent_def getKind_def TaskStatusRecord_init_def)

section \<open>The child-task record\<close>

text \<open>
  C5. The constructor \<open>ChildTaskStatusRecord(child, kind)\<close> asserts that the child
  has no group child fragment, and fails for a group member. The constructor
  \<open>ChildTaskStatusRecord(child)\<close> has no such assertion: for the same group member
  (task 1 of \<open>store0\<close>) it returns a record that tracks the task.
\<close>

theorem ChildTaskStatusRecord_child_unchecked:
  "hasGroupChildFragment (store0 1)
   \<and> ChildTaskStatusRecord_child_kind store0 (Some 1) ChildTask = Inl AssertionFailure
   \<and> getKind (ChildTaskStatusRecord_child (Some 1)) = ChildTask
   \<and> ChildTaskStatusRecord.FirstChild (ChildTaskStatusRecord_child (Some 1)) = Some 1"
  by (simp add: store0_def hasGroupChildFragment_def ChildTaskStatusRecord_child_kind_def
      ChildTaskStatusRecord_child_def TaskStatusRecord_init_def resetParent_def getKind_def)

section \<open>The dependency record\<close>

text \<open>
  C2. \<open>performEscalationAction(p)\<close> dispatches on the stored kind: nothing is called
  for waiting-on-continuation and for waiting-on-task-group; for waiting-on-task the
  only call is \<open>swift_task_escalate\<close> on the stored task with \<open>p\<close>; for waiting-on-actor
  the only call is \<open>swift_actor_escalate\<close> on the stored actor, with the task
  \<open>task\<close> and \<open>p\<close>. The stored task or actor of a record is the one its constructor
  was given.
\<close>

theorem performEscalationAction_dispatch:
  "(DependencyKind r = WaitingOnContinuation \<longrightarrow> performEscalationAction task r p = [])
   \<and> (DependencyKind r = WaitingOnTaskGroup \<longrightarrow> performEscalationAction task r p = [])
   \<and> (DependencyKind r = WaitingOnTask \<longrightarrow>
        performEscalationAction task r p = [swift_task_escalate (WaitingOn r) p])
   \<and> (DependencyKind r = WaitingOnActor \<longrightarrow>
        performEscalationAction task r p = [swift_actor_escalate (WaitingOn r) task p])
   \<and> performEscalationAction task (fst (TaskDependencyStatusRecord_continuation c)) p = []
   \<and> performEscalationAction task (fst (TaskDependencyStatusRecord_taskGroup g)) p = []
   \<and> performEscalationAction task (fst (TaskDependencyStatusRecord_task t)) p
       = [swift_task_escalate t p]
   \<and> performEscalationAction task (fst (TaskDependencyStatusRecord_actor a)) p
       = [swift_actor_escalate a task p]"
  by (simp add: performEscalationAction_def TaskDependencyStatusRecord_continuation_def
      TaskDependencyStatusRecord_taskGroup_def TaskDependencyStatusRecord_task_def
      TaskDependencyStatusRecord_actor_def TaskStatusRecord_init_def resetParent_def)

theorem performEscalationAction_dispatch_witness:
  "performEscalationAction (Some 7) (fst (TaskDependencyStatusRecord_continuation (Some 3))) 5 = []
   \<and> performEscalationAction (Some 7) (fst (TaskDependencyStatusRecord_taskGroup (Some 3))) 5 = []
   \<and> performEscalationAction (Some 7) (fst (TaskDependencyStatusRecord_task (Some 3))) 5
       = [swift_task_escalate (Some 3) 5]
   \<and> performEscalationAction (Some 7) (fst (TaskDependencyStatusRecord_actor (Some 3))) 5
       = [swift_actor_escalate (Some 3) (Some 7) 5]"
  using
    performEscalationAction_dispatch
      [of "fst (TaskDependencyStatusRecord_continuation (Some 3))" "Some 7" 5]
    performEscalationAction_dispatch
      [of "fst (TaskDependencyStatusRecord_taskGroup (Some 3))" "Some 7" 5]
    performEscalationAction_dispatch
      [of "fst (TaskDependencyStatusRecord_task (Some 3))" "Some 7" 5]
    performEscalationAction_dispatch
      [of "fst (TaskDependencyStatusRecord_actor (Some 3))" "Some 7" 5]
  by (simp add: TaskDependencyStatusRecord_continuation_def
      TaskDependencyStatusRecord_taskGroup_def TaskDependencyStatusRecord_task_def
      TaskDependencyStatusRecord_actor_def TaskStatusRecord_init_def resetParent_def)

text \<open>
  C8. The waiting-on-task constructor makes exactly one external call, the retain of
  the task it refers to; the other three constructors make none. Unregistering a
  waiting-on-task record releases that same task, once.
\<close>

theorem dependency_record_retains:
  "snd (TaskDependencyStatusRecord_task t) = [swift_retain t]
   \<and> snd (TaskDependencyStatusRecord_continuation c) = []
   \<and> snd (TaskDependencyStatusRecord_taskGroup g) = []
   \<and> snd (TaskDependencyStatusRecord_actor a) = []
   \<and> removeStatusRecord_dependency (fst (TaskDependencyStatusRecord_task t)) = [swift_release t]"
  by (simp add: TaskDependencyStatusRecord_continuation_def
      TaskDependencyStatusRecord_taskGroup_def TaskDependencyStatusRecord_task_def
      TaskDependencyStatusRecord_actor_def removeStatusRecord_dependency_def
      TaskStatusRecord_init_def resetParent_def)

section \<open>The task-group record\<close>

subsection \<open>Chains of successor slots\<close>

lemma linked_append:
  "linked h p (as @ bs) q = (\<exists>m. linked h p as m \<and> linked h m bs q)"
  by (induction as arbitrary: p) auto

lemma linked_setNextChild:
  "a \<notin> set as \<Longrightarrow> linked (setNextChild h a n) p as q = linked h p as q"
  by (induction as arbitrary: p) (auto simp: setNextChild_def)

lemma child_list_Nil [simp]: "child_list h p [] = (p = None)"
  by (simp add: child_list_def)

lemma child_list_Cons [simp]:
  "child_list h p (a # as) = (p = Some a \<and> child_list h (NextChild (h a)) as)"
  by (simp add: child_list_def)

lemma child_list_None [simp]: "child_list h None as = (as = [])"
  by (cases as) auto

lemma child_list_unique: "child_list h p as \<Longrightarrow> child_list h p bs \<Longrightarrow> as = bs"
proof (induction as arbitrary: p bs)
  case Nil
  then show ?case by simp
next
  case (Cons a as)
  then show ?case by (cases bs) auto
qed

lemma child_list_append:
  "child_list h p (as @ bs) = (\<exists>m. linked h p as m \<and> child_list h m bs)"
  by (simp add: child_list_def linked_append)

lemma child_list_head_fresh:
  assumes "child_list h (NextChild (h a)) as"
  shows "a \<notin> set as"
proof
  assume "a \<in> set as"
  then obtain bs cs where split: "as = bs @ a # cs"
    by (auto simp: in_set_conv_decomp)
  with assms have "child_list h (Some a) (a # cs)"
    by (auto simp: child_list_append)
  then have "child_list h (NextChild (h a)) cs"
    by simp
  with assms have "as = cs"
    by (rule child_list_unique)
  with split show False
    by simp
qed

lemma child_list_distinct: "child_list h p as \<Longrightarrow> distinct as"
  by (induction as arbitrary: p) (auto dest: child_list_head_fresh)

lemma children_from_None [simp]: "children_from h None = Some []"
  by (subst children_from.simps) simp

lemma children_from_Some:
  "children_from h (Some a)
     = Option.bind (children_from h (NextChild (h a))) (\<lambda>as. Some (a # as))"
  by (subst children_from.simps) simp

lemma children_from_child_list: "(children_from h p = Some as) = child_list h p as"
proof (induction as arbitrary: p)
  case Nil
  show ?case
  proof (cases p)
    case None
    then show ?thesis by simp
  next
    case (Some a)
    then show ?thesis
      by (simp add: children_from_Some [of h a] bind_eq_Some_conv)
  qed
next
  case (Cons a as)
  show ?case
  proof (cases p)
    case None
    then show ?thesis by simp
  next
    case (Some b)
    have "(children_from h (Some b) = Some (a # as))
            = (b = a \<and> children_from h (NextChild (h b)) = Some as)"
      by (subst children_from_Some) (auto simp: bind_eq_Some_conv)
    with Some show ?thesis
      by (auto simp: Cons.IH)
  qed
qed

lemma children_from_self_loop:
  assumes "NextChild (h a) = Some a"
  shows "children_from h (Some a) = None"
proof (cases "children_from h (Some a)")
  case None
  then show ?thesis .
next
  case (Some as)
  have unfolded: "children_from h (Some a)
      = Option.bind (children_from h (NextChild (h a))) (\<lambda>as. Some (a # as))"
    by (rule children_from_Some)
  from Some have "children_from h (NextChild (h a)) = Some as"
    by (simp only: assms)
  then have "Option.bind (children_from h (NextChild (h a))) (\<lambda>as. Some (a # as)) = Some (a # as)"
    by (simp only: Option.bind.simps)
  with unfolded have "children_from h (Some a) = Some (a # as)"
    by (rule trans)
  with Some show ?thesis
    by simp
qed

lemma child_list_successor:
  "child_list h p as \<Longrightarrow> a \<in> set as \<Longrightarrow> NextChild (h a) = Some b \<Longrightarrow> b \<in> set as"
proof (induction as arbitrary: p)
  case Nil
  then show ?case by simp
next
  case (Cons x xs)
  then show ?case by (cases xs) auto
qed

lemma detachChild_loop_None [simp]: "detachChild_loop (r, h) child None = Some (Inr (r, h))"
  by (subst detachChild_loop.simps) simp

lemma detachChild_loop_Some:
  "detachChild_loop (r, h) child (Some p) =
     (if NextChild (h p) = child then
        (case getNextChildTask h child of
           Inl e \<Rightarrow> Some (Inl e)
         | Inr afterChild \<Rightarrow>
             if child = LastChild r
             then Some (Inr (r\<lparr>LastChild := Some p\<rparr>, setNextChild h p afterChild))
             else Some (Inr (r, setNextChild h p afterChild)))
      else detachChild_loop (r, h) child (NextChild (h p)))"
  by (subst detachChild_loop.simps) (simp add: Let_def split: sum.split)

lemma detachChild_loop_absent:
  "child_list h prev as \<Longrightarrow> \<forall>a\<in>set as. NextChild (h a) \<noteq> Some c
     \<Longrightarrow> detachChild_loop (r, h) (Some c) prev = Some (Inr (r, h))"
  by (induction as arbitrary: prev) (auto simp: detachChild_loop_Some)

lemma detachChild_loop_found:
  "linked h prev (bs @ [p]) (Some c) \<Longrightarrow> c \<notin> set (tl (bs @ [p]))
     \<Longrightarrow> detachChild_loop (r, h) (Some c) prev =
         Some (Inr (if Some c = LastChild r then r\<lparr>LastChild := Some p\<rparr> else r,
                    setNextChild h p (NextChild (h c))))"
proof (induction bs arbitrary: prev)
  case Nil
  then show ?case
    by (auto simp: detachChild_loop_Some getNextChildTask_def)
next
  case (Cons b bs)
  from Cons.prems(1) have prev: "prev = Some b"
    and rest: "linked h (NextChild (h b)) (bs @ [p]) (Some c)"
    by simp_all
  from rest have nx: "NextChild (h b) = Some (hd (bs @ [p]))"
    by (cases bs) auto
  from Cons.prems(2) have neq: "hd (bs @ [p]) \<noteq> c" and tl: "c \<notin> set (tl (bs @ [p]))"
    by (cases bs; auto)+
  have "detachChild_loop (r, h) (Some c) prev
          = detachChild_loop (r, h) (Some c) (NextChild (h b))"
    unfolding prev by (subst detachChild_loop_Some) (simp add: nx neq)
  also have "\<dots> = Some (Inr (if Some c = LastChild r then r\<lparr>LastChild := Some p\<rparr> else r,
                    setNextChild h p (NextChild (h c))))"
    using rest tl by (rule Cons.IH)
  finally show ?case .
qed

subsection \<open>What the two calls do to a well-formed list\<close>

lemma children_upto_linked:
  "linked h p bs q \<Longrightarrow> children_upto (length bs + k) h p = bs @ children_upto k h q"
  by (induction bs arbitrary: p) auto

lemma child_list_last_slot:
  "child_list h p (bs @ [l]) \<Longrightarrow> linked h p bs (Some l) \<and> NextChild (h l) = None \<and> l \<notin> set bs"
  using child_list_distinct [of h p "bs @ [l]"] by (auto simp: child_list_append)

lemma detachChild_first:
  "FirstChild r = Some c \<Longrightarrow>
   detachChild r h (Some c) =
     Some (Inr (r\<lparr>FirstChild := NextChild (h c),
                  LastChild := (if NextChild (h c) = None then None else LastChild r)\<rparr>, h))"
  by (simp add: detachChild_def getNextChildTask_def Let_def)

lemma detachChild_later:
  assumes "child_list h (FirstChild r) (bs @ p # c # cs)"
  shows "detachChild r h (Some c) =
     Some (Inr (r\<lparr>LastChild := (if LastChild r = Some c then Some p else LastChild r)\<rparr>,
                setNextChild h p (NextChild (h c))))"
proof -
  from assms have dist: "distinct (bs @ p # c # cs)"
    by (rule child_list_distinct)
  from assms have first: "FirstChild r = Some (hd (bs @ [p]))"
    by (cases bs) auto
  from dist have "hd (bs @ [p]) \<noteq> c"
    by (cases bs) auto
  with first have not_first: "FirstChild r \<noteq> Some c"
    by simp
  from assms have seg: "linked h (FirstChild r) (bs @ [p]) (Some c)"
    using child_list_append [of h "FirstChild r" "bs @ [p]" "c # cs"] by auto
  from dist have "c \<notin> set (tl (bs @ [p]))"
    by (cases bs) auto
  with seg have "detachChild_loop (r, h) (Some c) (FirstChild r) =
         Some (Inr (if Some c = LastChild r then r\<lparr>LastChild := Some p\<rparr> else r,
                    setNextChild h p (NextChild (h c))))"
    by (rule detachChild_loop_found)
  with not_first show ?thesis
    by (auto simp: detachChild_def)
qed

lemma detachChild_absent:
  assumes "child_list h (FirstChild r) as" and "c \<notin> set as"
  shows "detachChild r h (Some c) = Some (Inr (r, h))"
proof -
  from assms have not_first: "FirstChild r \<noteq> Some c"
    by (cases as) auto
  from assms have "\<forall>a\<in>set as. NextChild (h a) \<noteq> Some c"
    by (auto dest: child_list_successor)
  with assms(1) have "detachChild_loop (r, h) (Some c) (FirstChild r) = Some (Inr (r, h))"
    by (rule detachChild_loop_absent)
  with not_first show ?thesis
    by (simp add: detachChild_def)
qed

lemma attachChild_first:
  "groupChildFragment (h c) = Some (getGroup this) \<Longrightarrow> FirstChild r = None \<Longrightarrow>
   attachChild this r h (Some c) = Inr (r\<lparr>FirstChild := Some c, LastChild := Some c\<rparr>, h)"
  by (simp add: attachChild_def hasGroupChildFragment_def Let_def)

lemma attachChild_later:
  "groupChildFragment (h c) = Some (getGroup this) \<Longrightarrow> FirstChild r \<noteq> None \<Longrightarrow>
   LastChild r = Some l \<Longrightarrow>
   attachChild this r h (Some c) = Inr (r\<lparr>LastChild := Some c\<rparr>, setNextChild h l (Some c))"
  by (auto simp: attachChild_def hasGroupChildFragment_def Let_def)

lemma group_list_Nil: "group_list r h [] = (FirstChild r = None \<and> LastChild r = None)"
  by (simp add: group_list_def)

lemma group_list_first_None: "group_list r h as \<Longrightarrow> (FirstChild r = None) = (as = [])"
  by (cases as) (auto simp: group_list_def)

lemma attachChild_group_list:
  assumes member: "groupChildFragment (h c) = Some (getGroup this)"
    and inv: "group_list r h as"
    and fresh: "c \<notin> set as"
    and slot: "NextChild (h c) = None"
  shows "\<exists>r' h'. attachChild this r h (Some c) = Inr (r', h') \<and> group_list r' h' (as @ [c])"
proof (cases as rule: rev_cases)
  case Nil
  with inv have "FirstChild r = None"
    by (simp add: group_list_Nil)
  with member have "attachChild this r h (Some c) = Inr (r\<lparr>FirstChild := Some c, LastChild := Some c\<rparr>, h)"
    by (rule attachChild_first)
  moreover have "group_list (r\<lparr>FirstChild := Some c, LastChild := Some c\<rparr>) h (as @ [c])"
    using Nil slot by (simp add: group_list_def)
  ultimately show ?thesis
    by blast
next
  case (snoc bs l)
  with inv have chain: "child_list h (FirstChild r) (bs @ [l])" and last: "LastChild r = Some l"
    by (simp_all add: group_list_def)
  from chain have seg: "linked h (FirstChild r) bs (Some l)" and l_fresh: "l \<notin> set bs"
    using child_list_last_slot by blast+
  from inv snoc have "FirstChild r \<noteq> None"
    by (simp add: group_list_first_None)
  with member last
  have call: "attachChild this r h (Some c) = Inr (r\<lparr>LastChild := Some c\<rparr>, setNextChild h l (Some c))"
    by (simp add: attachChild_later)
  from fresh snoc have "c \<noteq> l"
    by auto
  with slot have "child_list (setNextChild h l (Some c)) (Some l) [l, c]"
    by (simp add: setNextChild_def)
  moreover from seg l_fresh have "linked (setNextChild h l (Some c)) (FirstChild r) bs (Some l)"
    by (simp add: linked_setNextChild)
  ultimately have "child_list (setNextChild h l (Some c)) (FirstChild r) (bs @ [l, c])"
    unfolding child_list_append by blast
  with snoc have "group_list (r\<lparr>LastChild := Some c\<rparr>) (setNextChild h l (Some c)) (as @ [c])"
    by (simp add: group_list_def)
  with call show ?thesis
    by blast
qed

lemma filter_other: "c \<notin> set as \<Longrightarrow> filter (\<lambda>a. a \<noteq> c) as = as"
  by (induction as) auto

lemma detachChild_group_list:
  assumes inv: "group_list r h as"
  shows "\<exists>r' h'. detachChild r h (Some c) = Some (Inr (r', h'))
           \<and> group_list r' h' (filter (\<lambda>a. Some a \<noteq> Some c) as)"
proof (cases "c \<in> set as")
  case False
  with inv have "detachChild r h (Some c) = Some (Inr (r, h))"
    by (auto simp: group_list_def intro: detachChild_absent)
  moreover from False have "filter (\<lambda>a. Some a \<noteq> Some c) as = as"
    by (simp add: filter_other)
  ultimately show ?thesis
    using inv by simp
next
  case True
  from inv have chain: "child_list h (FirstChild r) as"
    and last: "LastChild r = (if as = [] then None else Some (last as))"
    by (simp_all add: group_list_def)
  from chain have dist: "distinct as"
    by (rule child_list_distinct)
  from True obtain bs cs where split: "as = bs @ c # cs"
    by (auto simp: in_set_conv_decomp)
  with dist have rest: "filter (\<lambda>a. Some a \<noteq> Some c) as = bs @ cs"
    by (simp add: filter_other)
  show ?thesis
  proof (cases bs rule: rev_cases)
    case Nil
    with split chain have first: "FirstChild r = Some c" and tail: "child_list h (NextChild (h c)) cs"
      by simp_all
    from tail have "(NextChild (h c) = None) = (cs = [])"
      by (cases cs) auto
    with tail last split Nil
    have "group_list (r\<lparr>FirstChild := NextChild (h c),
                  LastChild := (if NextChild (h c) = None then None else LastChild r)\<rparr>) h cs"
      by (auto simp: group_list_def)
    with first rest Nil show ?thesis
      by (simp add: detachChild_first)
  next
    case (snoc ds p)
    with split chain have chain': "child_list h (FirstChild r) (ds @ p # c # cs)"
      by simp
    then have call: "detachChild r h (Some c) =
       Some (Inr (r\<lparr>LastChild := (if LastChild r = Some c then Some p else LastChild r)\<rparr>,
                  setNextChild h p (NextChild (h c))))"
      by (rule detachChild_later)
    from chain' have seg: "linked h (FirstChild r) ds (Some p)"
      and tail: "child_list h (NextChild (h c)) cs" and nx: "NextChild (h p) = Some c"
      by (auto simp: child_list_append)
    from dist split snoc have fresh: "p \<notin> set ds" "p \<notin> set cs" "c \<notin> set cs"
      by auto
    from tail fresh have "child_list (setNextChild h p (NextChild (h c))) (Some p) (p # cs)"
      by (simp add: child_list_def linked_setNextChild) (simp add: setNextChild_def)
    moreover from seg fresh have "linked (setNextChild h p (NextChild (h c))) (FirstChild r) ds (Some p)"
      by (simp add: linked_setNextChild)
    ultimately have new_chain:
      "child_list (setNextChild h p (NextChild (h c))) (FirstChild r) (ds @ p # cs)"
      unfolding child_list_append by blast
    have "(LastChild r = Some c) = (cs = [])"
      using last split fresh(3) by (auto simp: last_append)
    with last split snoc
    have "LastChild (r\<lparr>LastChild := (if LastChild r = Some c then Some p else LastChild r)\<rparr>)
            = Some (last (ds @ p # cs))"
      by auto
    with new_chain have "group_list (r\<lparr>LastChild := (if LastChild r = Some c then Some p else LastChild r)\<rparr>)
        (setNextChild h p (NextChild (h c))) (ds @ p # cs)"
      by (simp add: group_list_def)
    with call rest snoc show ?thesis
      by simp
  qed
qed

subsection \<open>The example list\<close>

lemma store123_list: "child_list store123 (Some 1) [1, 2, 3]"
  by (simp add: store123_def store0_def setNextChild_def)

lemma group123_first: "FirstChild group123 = Some 1"
  by (simp add: group123_def)

lemma group123_last: "LastChild group123 = Some 3"
  by (simp add: group123_def)

lemma group123_list: "group_list group123 store123 [1, 2, 3]"
  unfolding group_list_def group123_first group123_last
  using store123_list by simp

subsection \<open>detachChild\<close>

text \<open>
  C6. When the chain from \<open>FirstChild\<close> is a list that ends in \<open>nullptr\<close> and the
  non-null \<open>child\<close> is not in it, \<open>detachChild(child)\<close> scans the list to its end and
  returns; the record (first, last and all) and the whole store of tasks, hence every
  successor slot, are what they were.
\<close>

theorem detachChild_absent_noop:
  assumes "child_list h (FirstChild r) as" and "c \<notin> set as"
  shows "detachChild r h (Some c) = Some (Inr (r, h))"
  using assms by (rule detachChild_absent)

theorem detachChild_absent_noop_witness:
  "child_list store123 (FirstChild group123) [1, 2, 3] \<and> 4 \<notin> set [1, 2, 3 :: addr]
   \<and> detachChild group123 store123 (Some 4) = Some (Inr (group123, store123))"
proof -
  have chain: "child_list store123 (FirstChild group123) [1, 2, 3]"
    unfolding group123_first by (rule store123_list)
  have absent: "4 \<notin> set [1, 2, 3 :: addr]"
    by simp
  from chain absent detachChild_absent_noop [OF chain absent] show ?thesis
    by simp
qed

text \<open>
  C3. When the chain from \<open>FirstChild\<close> is a list \<open>as\<close> and \<open>child\<close> is in it:
  if \<open>child\<close> is the first, \<open>FirstChild\<close> becomes the successor of \<open>child\<close>, and
  \<open>LastChild\<close> becomes \<open>nullptr\<close> when that successor is \<open>nullptr\<close>; nothing else
  changes. Otherwise \<open>child\<close> has a predecessor \<open>p\<close> in the list (the node whose
  successor slot holds \<open>child\<close>), the successor slot of \<open>p\<close> is set to the successor
  of \<open>child\<close>, and \<open>LastChild\<close> becomes \<open>p\<close> when it was \<open>child\<close>; nothing else
  changes. In both cases the call returns.
\<close>

theorem detachChild_present:
  assumes "child_list h (FirstChild r) as" and "c \<in> set as"
  shows "(FirstChild r = Some c \<longrightarrow>
            detachChild r h (Some c) =
              Some (Inr (r\<lparr>FirstChild := NextChild (h c),
                           LastChild := (if NextChild (h c) = None then None else LastChild r)\<rparr>, h)))
       \<and> (FirstChild r \<noteq> Some c \<longrightarrow>
            (\<exists>bs p cs. as = bs @ p # c # cs \<and> NextChild (h p) = Some c
               \<and> detachChild r h (Some c) =
                   Some (Inr (r\<lparr>LastChild := (if LastChild r = Some c then Some p else LastChild r)\<rparr>,
                              setNextChild h p (NextChild (h c))))))"
proof (intro conjI impI)
  assume "FirstChild r = Some c"
  then show "detachChild r h (Some c) =
      Some (Inr (r\<lparr>FirstChild := NextChild (h c),
                   LastChild := (if NextChild (h c) = None then None else LastChild r)\<rparr>, h))"
    by (rule detachChild_first)
next
  assume not_first: "FirstChild r \<noteq> Some c"
  from assms(2) obtain ds cs where split: "as = ds @ c # cs"
    by (auto simp: in_set_conv_decomp)
  with assms(1) not_first have "ds \<noteq> []"
    by (cases ds) auto
  then obtain bs p where "ds = bs @ [p]"
    by (cases ds rule: rev_cases) auto
  with split have shape: "as = bs @ p # c # cs"
    by simp
  with assms(1) have chain: "child_list h (FirstChild r) (bs @ p # c # cs)"
    by simp
  then have "NextChild (h p) = Some c"
    by (auto simp: child_list_append)
  with shape detachChild_later [OF chain]
  show "\<exists>bs p cs. as = bs @ p # c # cs \<and> NextChild (h p) = Some c
      \<and> detachChild r h (Some c) =
          Some (Inr (r\<lparr>LastChild := (if LastChild r = Some c then Some p else LastChild r)\<rparr>,
                     setNextChild h p (NextChild (h c))))"
    by blast
qed

theorem detachChild_present_witness:
  "detachChild group123 store123 (Some 1) = Some (Inr (group123\<lparr>FirstChild := Some 2\<rparr>, store123))
   \<and> detachChild group123 store123 (Some 3)
       = Some (Inr (group123\<lparr>LastChild := Some 2\<rparr>, setNextChild store123 2 None))"
proof -
  have chain: "child_list store123 (FirstChild group123) [1, 2, 3]"
    unfolding group123_first by (rule store123_list)
  note first = group123_first and last = group123_last
  have slots: "NextChild (store123 1) = Some 2" "NextChild (store123 3) = None"
    "\<And>p. (NextChild (store123 p) = Some 3) = (p = 2)"
    by (auto simp: store123_def store0_def setNextChild_def)
  have "detachChild group123 store123 (Some 1) = Some (Inr (group123\<lparr>FirstChild := Some 2\<rparr>, store123))"
    using detachChild_present [OF chain, of 1] first last slots by simp
  moreover
  have "detachChild group123 store123 (Some 3)
       = Some (Inr (group123\<lparr>LastChild := Some 2\<rparr>, setNextChild store123 2 None))"
    using detachChild_present [OF chain, of 3] first last slots by auto
  ultimately show ?thesis
    by simp
qed

subsection \<open>attachChild\<close>

text \<open>
  C4. For a record whose children are the list \<open>as\<close> and a child of this group whose
  successor slot is \<open>nullptr\<close>, \<open>attachChild(child)\<close> returns, and: if \<open>FirstChild\<close> is
  \<open>nullptr\<close>, \<open>FirstChild\<close> and \<open>LastChild\<close> become \<open>child\<close> and the store is
  unchanged; otherwise the successor slot of the previous last child is set to
  \<open>child\<close> and \<open>LastChild\<close> becomes \<open>child\<close>. The order of attachment is kept:
  afterwards \<open>children()\<close> yields first the children \<open>as\<close>, in their order, and then
  \<open>child\<close>; and when \<open>child\<close> was not in the list already, that is all it yields.
\<close>

theorem attachChild_appends:
  assumes member: "groupChildFragment (h c) = Some (getGroup this)"
    and inv: "group_list r h as"
    and slot: "NextChild (h c) = None"
  shows "(FirstChild r = None \<longrightarrow>
            attachChild this r h (Some c) = Inr (r\<lparr>FirstChild := Some c, LastChild := Some c\<rparr>, h))
       \<and> (FirstChild r \<noteq> None \<longrightarrow>
            (\<exists>l. LastChild r = Some l \<and> l = last as
               \<and> attachChild this r h (Some c) =
                   Inr (r\<lparr>LastChild := Some c\<rparr>, setNextChild h l (Some c))))
       \<and> (\<exists>r' h'. attachChild this r h (Some c) = Inr (r', h')
               \<and> children_upto (Suc (length as)) h' (FirstChild r') = as @ [c]
               \<and> (c \<notin> set as \<longrightarrow> children r' h' = Some (as @ [c])))"
proof (cases as rule: rev_cases)
  case Nil
  with inv have first: "FirstChild r = None"
    by (simp add: group_list_Nil)
  with member have call:
    "attachChild this r h (Some c) = Inr (r\<lparr>FirstChild := Some c, LastChild := Some c\<rparr>, h)"
    by (rule attachChild_first)
  have "children (r\<lparr>FirstChild := Some c, LastChild := Some c\<rparr>) h = Some [c]"
    using slot by (simp add: children_def getFirstChild_def children_from_child_list)
  with Nil first call slot show ?thesis
    by simp
next
  case (snoc bs l)
  with inv have chain: "child_list h (FirstChild r) (bs @ [l])" and last: "LastChild r = Some l"
    by (simp_all add: group_list_def)
  from inv snoc have first: "FirstChild r \<noteq> None"
    by (simp add: group_list_first_None)
  with member last have call:
    "attachChild this r h (Some c) = Inr (r\<lparr>LastChild := Some c\<rparr>, setNextChild h l (Some c))"
    by (simp add: attachChild_later)
  from chain have seg: "linked h (FirstChild r) bs (Some l)" and l_fresh: "l \<notin> set bs"
    using child_list_last_slot by blast+
  then have "linked (setNextChild h l (Some c)) (FirstChild r) bs (Some l)"
    by (simp add: linked_setNextChild)
  then have "children_upto (length bs + 2) (setNextChild h l (Some c)) (FirstChild r)
               = bs @ children_upto 2 (setNextChild h l (Some c)) (Some l)"
    by (rule children_upto_linked)
  moreover have "children_upto 2 (setNextChild h l (Some c)) (Some l) = [l, c]"
    by (simp add: numeral_2_eq_2 setNextChild_def)
  ultimately have prefix:
    "children_upto (Suc (length as)) (setNextChild h l (Some c)) (FirstChild r) = as @ [c]"
    using snoc by simp
  have exact: "children (r\<lparr>LastChild := Some c\<rparr>) (setNextChild h l (Some c)) = Some (as @ [c])"
    if "c \<notin> set as"
  proof -
    from attachChild_group_list [OF member inv that slot] call
    have "group_list (r\<lparr>LastChild := Some c\<rparr>) (setNextChild h l (Some c)) (as @ [c])"
      by simp
    then show ?thesis
      by (simp add: group_list_def children_def getFirstChild_def children_from_child_list)
  qed
  from inv snoc last have "LastChild r = Some l \<and> l = last as"
    by simp
  with first call prefix exact show ?thesis
    by auto
qed

theorem attachChild_appends_witness:
  "attachChild 100 group123 store123 (Some 4)
     = Inr (group123\<lparr>LastChild := Some 4\<rparr>, setNextChild store123 3 (Some 4))
   \<and> children (group123\<lparr>LastChild := Some 4\<rparr>) (setNextChild store123 3 (Some 4)) = Some [1, 2, 3, 4]"
proof -
  have member: "groupChildFragment (store123 4) = Some (getGroup 100)"
    and slot: "NextChild (store123 4) = None"
    by (simp_all add: store123_def store0_def setNextChild_def getGroup_def)
  have first: "FirstChild group123 \<noteq> None" and last: "LastChild group123 = Some 3"
    by (simp_all add: group123_def)
  from attachChild_appends [OF member group123_list slot] first last show ?thesis
    by auto
qed

subsection \<open>Sequences of calls\<close>

lemma run_calls_group_list:
  "group_list r h as \<Longrightarrow> permitted this cs (r, h) as \<Longrightarrow>
   \<exists>r' h'. run_calls this cs (r, h) = Some (Inr (r', h')) \<and> group_list r' h' (attached as cs)"
proof (induction cs arbitrary: r h as)
  case Nil
  then show ?case by simp
next
  case (Cons call cs)
  show ?case
  proof (cases call)
    case (AttachChild child)
    with Cons.prems(2) obtain c where child: "child = Some c"
      and fresh: "c \<notin> set as" and slot: "NextChild (h c) = None"
      and member: "groupChildFragment (h c) = Some (getGroup this)"
      by (cases child) auto
    from attachChild_group_list [OF member Cons.prems(1) fresh slot]
    obtain r1 h1 where call1: "attachChild this r h (Some c) = Inr (r1, h1)"
      and inv1: "group_list r1 h1 (as @ [c])"
      by blast
    from Cons.prems(2) AttachChild child call1 have "permitted this cs (r1, h1) (as @ [c])"
      by simp
    with inv1 obtain r' h' where "run_calls this cs (r1, h1) = Some (Inr (r', h'))"
      and "group_list r' h' (attached (as @ [c]) cs)"
      using Cons.IH by blast
    with AttachChild child call1 show ?thesis
      by simp
  next
    case (DetachChild child)
    with Cons.prems(2) obtain c where child: "child = Some c"
      by (cases child) auto
    from detachChild_group_list [OF Cons.prems(1), of c]
    obtain r1 h1 where call1: "detachChild r h (Some c) = Some (Inr (r1, h1))"
      and inv1: "group_list r1 h1 (filter (\<lambda>a. Some a \<noteq> Some c) as)"
      by blast
    from Cons.prems(2) DetachChild child call1
    have "permitted this cs (r1, h1) (filter (\<lambda>a. Some a \<noteq> Some c) as)"
      by simp
    with inv1 obtain r' h' where "run_calls this cs (r1, h1) = Some (Inr (r', h'))"
      and "group_list r' h' (attached (filter (\<lambda>a. Some a \<noteq> Some c) as) cs)"
      using Cons.IH by blast
    with DetachChild child call1 show ?thesis
      by simp
  qed
qed

lemma new_group_list: "group_list TaskGroupTaskStatusRecord_new h []"
  by (simp add: group_list_Nil TaskGroupTaskStatusRecord_new_def TaskStatusRecord_init_def
      resetParent_def)

lemma group_list_children: "group_list r h as \<Longrightarrow> children r h = Some as"
  by (simp add: group_list_def children_def getFirstChild_def children_from_child_list)

lemma new_fields:
  "FirstChild TaskGroupTaskStatusRecord_new = None" "LastChild TaskGroupTaskStatusRecord_new = None"
  by (simp_all add: TaskGroupTaskStatusRecord_new_def TaskStatusRecord_init_def resetParent_def)

lemma store0_task: "NextChild (store0 a) = None" "groupChildFragment (store0 a) = Some (Some 100)"
  by (simp_all add: store0_def)

text \<open>
  C1, as the code has it. Start from the empty record and make any sequence of
  \<open>attachChild\<close> and \<open>detachChild\<close> calls in which every attached child is a non-null
  member of the group that, at the moment of the call, is not in the list and has an
  empty successor slot, and every detached child is non-null (attached or not). Then
  every call returns, and afterwards \<open>children()\<close> yields exactly the children that
  were attached and not detached since, in the order of their attachment.
\<close>

theorem children_are_attached:
  assumes "permitted this cs (TaskGroupTaskStatusRecord_new, h) []"
  shows "\<exists>r' h'. run_calls this cs (TaskGroupTaskStatusRecord_new, h) = Some (Inr (r', h'))
           \<and> children r' h' = Some (attached [] cs)"
  using run_calls_group_list [OF new_group_list assms] group_list_children by blast

theorem children_are_attached_witness:
  "permitted 100 [AttachChild (Some 1), AttachChild (Some 2), AttachChild (Some 3), DetachChild (Some 2)]
     (TaskGroupTaskStatusRecord_new, store0) []
   \<and> (\<exists>r' h'. run_calls 100
          [AttachChild (Some 1), AttachChild (Some 2), AttachChild (Some 3), DetachChild (Some 2)]
          (TaskGroupTaskStatusRecord_new, store0) = Some (Inr (r', h'))
        \<and> children r' h' = Some [1, 3])"
proof -
  have ok: "permitted 100
     [AttachChild (Some 1), AttachChild (Some 2), AttachChild (Some 3), DetachChild (Some 2)]
     (TaskGroupTaskStatusRecord_new, store0) []"
    by (simp add: attachChild_def hasGroupChildFragment_def getGroup_def new_fields store0_task
        setNextChild_def Let_def split: option.split sum.split)
  from ok children_are_attached [OF ok] show ?thesis
    by simp
qed

text \<open>
  C1, as stated, asks of an attached child only that its successor slot is empty. The
  last child of the list has an empty successor slot, and attaching it once more makes
  it its own successor: task 1 is attached twice to the empty record, each time with an
  empty successor slot; the second call links task 1 to itself, and the range of
  \<open>children()\<close> never ends.
\<close>

theorem double_attach_cycle:
  "NextChild (store0 1) = None
   \<and> attachChild 100 TaskGroupTaskStatusRecord_new store0 (Some 1)
       = Inr (TaskGroupTaskStatusRecord_new\<lparr>FirstChild := Some 1, LastChild := Some 1\<rparr>, store0)
   \<and> run_calls 100 [AttachChild (Some 1), AttachChild (Some 1)] (TaskGroupTaskStatusRecord_new, store0)
       = Some (Inr (TaskGroupTaskStatusRecord_new\<lparr>FirstChild := Some 1, LastChild := Some 1\<rparr>,
                    setNextChild store0 1 (Some 1)))
   \<and> attached [] [AttachChild (Some 1), AttachChild (Some 1)] = [1, 1]
   \<and> children (TaskGroupTaskStatusRecord_new\<lparr>FirstChild := Some 1, LastChild := Some 1\<rparr>)
        (setNextChild store0 1 (Some 1)) = None"
proof -
  have first: "attachChild 100 TaskGroupTaskStatusRecord_new store0 (Some 1)
       = Inr (TaskGroupTaskStatusRecord_new\<lparr>FirstChild := Some 1, LastChild := Some 1\<rparr>, store0)"
    by (simp add: attachChild_first store0_task getGroup_def new_fields)
  have second: "attachChild 100 (TaskGroupTaskStatusRecord_new\<lparr>FirstChild := Some 1, LastChild := Some 1\<rparr>)
        store0 (Some 1)
       = Inr (TaskGroupTaskStatusRecord_new\<lparr>FirstChild := Some 1, LastChild := Some 1\<rparr>,
              setNextChild store0 1 (Some 1))"
    by (simp add: attachChild_def hasGroupChildFragment_def store0_task getGroup_def Let_def)
  have "NextChild (setNextChild store0 1 (Some 1) 1) = Some 1"
    by (simp add: setNextChild_def)
  then have "children_from (setNextChild store0 1 (Some 1)) (Some 1) = None"
    by (rule children_from_self_loop)
  with first second show ?thesis
    by (simp add: children_def getFirstChild_def store0_task)
qed

subsection \<open>What holds of every call that returns\<close>

lemma detachChild_loop_result:
  assumes "detachChild_loop s child prev = Some (Inr (r', h'))"
  shows "FirstChild r' = FirstChild (fst s)
       \<and> (LastChild r' = LastChild (fst s) \<or> LastChild r' \<noteq> None \<and> prev \<noteq> None)
       \<and> (\<forall>c. child = Some c \<and> prev \<noteq> Some c \<longrightarrow> NextChild (h' c) = NextChild (snd s c))"
proof -
  define P where "P = (\<lambda>(s :: TaskGroupTaskStatusRecord \<times> task_store) child prev
      (res :: error + TaskGroupTaskStatusRecord \<times> task_store).
      \<forall>r' h'. res = Inr (r', h') \<longrightarrow>
        FirstChild r' = FirstChild (fst s)
        \<and> (LastChild r' = LastChild (fst s) \<or> LastChild r' \<noteq> None \<and> prev \<noteq> None)
        \<and> (\<forall>c. child = Some c \<and> prev \<noteq> Some c \<longrightarrow> NextChild (h' c) = NextChild (snd s c)))"
  have "P s child prev (Inr (r', h'))"
  proof (rule detachChild_loop.raw_induct [where P = P, OF _ assms])
    fix loop s child prev res
    assume IH: "\<And>s child prev res. loop s child prev = Some res \<Longrightarrow> P s child prev res"
      and body: "(case s of (r, h) \<Rightarrow>
         (case prev of
            None \<Rightarrow> Some (Inr (r, h))
          | Some p \<Rightarrow>
              let afterPrev = NextChild (h p) in
              if afterPrev = child then
                (case getNextChildTask h child of
                   Inl e \<Rightarrow> Some (Inl e)
                 | Inr afterChild \<Rightarrow>
                     let h1 = setNextChild h p afterChild in
                     if child = LastChild r then Some (Inr (r\<lparr>LastChild := Some p\<rparr>, h1))
                     else Some (Inr (r, h1)))
              else loop (r, h) child afterPrev)) = Some res"
    obtain r h where s: "s = (r, h)"
      by (cases s)
    show "P s child prev res"
    proof (cases prev)
      case None
      with body s show ?thesis
        by (auto simp: P_def)
    next
      case (Some p)
      show ?thesis
      proof (cases "NextChild (h p) = child")
        case True
        with body s Some show ?thesis
          by (auto simp: P_def Let_def getNextChildTask_def setNextChild_def
              split: option.splits if_splits)
      next
        case False
        with body s Some have "loop (r, h) child (NextChild (h p)) = Some res"
          by (simp add: Let_def)
        then have "P (r, h) child (NextChild (h p)) res"
          by (rule IH)
        with False s Some show ?thesis
          by (auto simp: P_def)
      qed
    qed
  qed
  then show ?thesis
    by (simp add: P_def)
qed

lemma detachChild_slot:
  assumes "detachChild r h (Some c) = Some (Inr (r', h'))"
  shows "NextChild (h' c) = NextChild (h c)"
proof (cases "FirstChild r = Some c")
  case True
  with assms show ?thesis
    by (simp add: detachChild_first)
next
  case False
  with assms have "detachChild_loop (r, h) (Some c) (FirstChild r) = Some (Inr (r', h'))"
    by (simp add: detachChild_def)
  from detachChild_loop_result [OF this] False show ?thesis
    by simp
qed

lemma detachChild_ends:
  assumes "detachChild r h child = Some (Inr (r', h'))"
    and "(FirstChild r = None) = (LastChild r = None)"
  shows "(FirstChild r' = None) = (LastChild r' = None)"
proof (cases "child = None \<or> FirstChild r = child")
  case True
  with assms show ?thesis
    by (auto simp: detachChild_def getNextChildTask_def Let_def split: option.splits if_splits)
next
  case False
  then have "child \<noteq> None" and "FirstChild r \<noteq> child"
    by simp_all
  with assms(1) have "detachChild_loop (r, h) child (FirstChild r) = Some (Inr (r', h'))"
    by (simp add: detachChild_def)
  from detachChild_loop_result [OF this] assms(2) show ?thesis
    by auto
qed

lemma attachChild_ends:
  "attachChild this r h child = Inr (r', h') \<Longrightarrow> FirstChild r' \<noteq> None \<and> LastChild r' \<noteq> None"
  by (auto simp: attachChild_def Let_def split: option.splits if_splits)

lemma run_calls_ends:
  "run_calls this cs (r, h) = Some (Inr (r', h')) \<Longrightarrow>
   (FirstChild r = None) = (LastChild r = None) \<Longrightarrow>
   (FirstChild r' = None) = (LastChild r' = None)"
proof (induction cs arbitrary: r h)
  case Nil
  then show ?case by simp
next
  case (Cons call cs)
  show ?case
  proof (cases call)
    case (AttachChild child)
    with Cons.prems(1) obtain r1 h1 where call1: "attachChild this r h child = Inr (r1, h1)"
      and rest: "run_calls this cs (r1, h1) = Some (Inr (r', h'))"
      by (auto split: sum.splits)
    from call1 have "(FirstChild r1 = None) = (LastChild r1 = None)"
      using attachChild_ends by blast
    with rest show ?thesis
      by (rule Cons.IH)
  next
    case (DetachChild child)
    with Cons.prems(1) obtain r1 h1 where call1: "detachChild r h child = Some (Inr (r1, h1))"
      and rest: "run_calls this cs (r1, h1) = Some (Inr (r', h'))"
      by (auto split: option.splits sum.splits)
    from call1 Cons.prems(2) have "(FirstChild r1 = None) = (LastChild r1 = None)"
      by (rule detachChild_ends)
    with rest show ?thesis
      by (rule Cons.IH)
  qed
qed

lemma children_Nil: "(children r h = Some []) = (FirstChild r = None)"
  by (simp add: children_def getFirstChild_def children_from_child_list)

text \<open>
  C7. Take a record that comes from one of the two constructors and make any sequence
  of \<open>attachChild\<close> and \<open>detachChild\<close> calls on it, each of which returns. In the
  record that results, \<open>FirstChild\<close> is \<open>nullptr\<close> if and only if \<open>LastChild\<close> is, and
  both are \<open>nullptr\<close> exactly when \<open>children()\<close> yields nothing.
\<close>

theorem first_none_iff_last_none:
  assumes "r0 = TaskGroupTaskStatusRecord_new \<or> TaskGroupTaskStatusRecord_child h0 child = Inr r0"
    and "run_calls this cs (r0, h0) = Some (Inr (r, h))"
  shows "(FirstChild r = None) = (LastChild r = None)
       \<and> ((FirstChild r = None \<and> LastChild r = None) = (children r h = Some []))"
proof -
  from assms(1) have "(FirstChild r0 = None) = (LastChild r0 = None)"
    by (auto simp: new_fields TaskGroupTaskStatusRecord_child_def TaskStatusRecord_init_def
        resetParent_def Let_def split: option.splits if_splits)
  with assms(2) have "(FirstChild r = None) = (LastChild r = None)"
    by (rule run_calls_ends)
  then show ?thesis
    by (auto simp: children_Nil)
qed

theorem first_none_iff_last_none_witness:
  "TaskGroupTaskStatusRecord_child store0 (Some 1)
     = Inr (TaskGroupTaskStatusRecord_new\<lparr>FirstChild := Some 1, LastChild := Some 1\<rparr>)
   \<and> run_calls 100 [AttachChild (Some 2), DetachChild (Some 2), DetachChild (Some 1)]
       (TaskGroupTaskStatusRecord_new\<lparr>FirstChild := Some 1, LastChild := Some 1\<rparr>, store0)
       = Some (Inr (TaskGroupTaskStatusRecord_new, setNextChild (setNextChild store0 1 (Some 2)) 1 None))
   \<and> FirstChild TaskGroupTaskStatusRecord_new = None
   \<and> LastChild TaskGroupTaskStatusRecord_new = None
   \<and> children TaskGroupTaskStatusRecord_new (setNextChild (setNextChild store0 1 (Some 2)) 1 None)
       = Some []"
proof -
  have ctor: "TaskGroupTaskStatusRecord_child store0 (Some 1)
     = Inr (TaskGroupTaskStatusRecord_new\<lparr>FirstChild := Some 1, LastChild := Some 1\<rparr>)"
    by (simp add: TaskGroupTaskStatusRecord_child_def TaskGroupTaskStatusRecord_new_def
        TaskStatusRecord_init_def resetParent_def store0_task)
  have run: "run_calls 100 [AttachChild (Some 2), DetachChild (Some 2), DetachChild (Some 1)]
       (TaskGroupTaskStatusRecord_new\<lparr>FirstChild := Some 1, LastChild := Some 1\<rparr>, store0)
       = Some (Inr (TaskGroupTaskStatusRecord_new, setNextChild (setNextChild store0 1 (Some 2)) 1 None))"
    by (simp add: attachChild_def detachChild_def detachChild_loop_Some getNextChildTask_def
        hasGroupChildFragment_def getGroup_def store0_task setNextChild_def Let_def
        TaskGroupTaskStatusRecord_new_def TaskStatusRecord_init_def resetParent_def)
  from first_none_iff_last_none [OF disjI2 run, OF ctor] show ?thesis
    by (intro conjI ctor run) (simp_all add: new_fields)
qed

subsection \<open>The successor slot of the child itself\<close>

lemma attachChild_frame:
  assumes "attachChild this r h (Some c) = Inr (r', h')"
  shows "(LastChild r \<noteq> Some c \<longrightarrow> NextChild (h' c) = NextChild (h c))
       \<and> (\<forall>a. Some a \<noteq> LastChild r \<longrightarrow> h' a = h a)
       \<and> (\<forall>a. groupChildFragment (h' a) = groupChildFragment (h a))
       \<and> Flags r' = Flags r \<and> Parent r' = Parent r"
  using assms
  by (auto simp: attachChild_def setNextChild_def Let_def split: if_splits option.splits)

lemma attachChild_returns:
  assumes "group_list r h as" and "groupChildFragment (h c) = Some (getGroup this)"
  shows "\<exists>s. attachChild this r h (Some c) = Inr s"
proof (cases "FirstChild r = None")
  case True
  with assms(2) show ?thesis
    by (simp add: attachChild_first)
next
  case False
  with assms(1) have "as \<noteq> []"
    by (simp add: group_list_first_None)
  with assms(1) have "LastChild r = Some (last as)"
    by (simp add: group_list_def)
  with assms(2) False show ?thesis
    by (simp add: attachChild_later)
qed

text \<open>
  C10, as the code has it. A call \<open>attachChild(child)\<close> that returns has changed, in
  the store, nothing but the successor slot of the previous last child, and in the
  record nothing but \<open>FirstChild\<close> and \<open>LastChild\<close>; so the successor slot of \<open>child\<close>
  is untouched when \<open>child\<close> is not itself the previous last child. A call
  \<open>detachChild(child)\<close> that returns has left the successor slot of \<open>child\<close> as it
  was: it still holds the former successor. On a record with a well-formed list both
  calls do return (for \<open>attachChild\<close>, given a child of this group).
\<close>

theorem child_slot_not_written:
  "(attachChild this r h (Some c) = Inr (r', h') \<longrightarrow>
      (LastChild r \<noteq> Some c \<longrightarrow> NextChild (h' c) = NextChild (h c))
      \<and> (\<forall>a. Some a \<noteq> LastChild r \<longrightarrow> h' a = h a)
      \<and> (\<forall>a. groupChildFragment (h' a) = groupChildFragment (h a))
      \<and> Flags r' = Flags r \<and> Parent r' = Parent r)
   \<and> (detachChild r h (Some c) = Some (Inr (r'', h'')) \<longrightarrow> NextChild (h'' c) = NextChild (h c))
   \<and> (group_list r h as \<longrightarrow>
        (\<exists>s. detachChild r h (Some c) = Some (Inr s))
        \<and> (groupChildFragment (h c) = Some (getGroup this) \<longrightarrow>
             (\<exists>s. attachChild this r h (Some c) = Inr s)))"
proof (intro conjI impI)
  assume "group_list r h as"
  then show "\<exists>s. detachChild r h (Some c) = Some (Inr s)"
    using detachChild_group_list by blast
next
  assume "group_list r h as" and "groupChildFragment (h c) = Some (getGroup this)"
  then show "\<exists>s. attachChild this r h (Some c) = Inr s"
    by (rule attachChild_returns)
qed (use attachChild_frame detachChild_slot in blast)+

theorem child_slot_not_written_witness:
  "attachChild 100 group123 store123 (Some 4)
     = Inr (group123\<lparr>LastChild := Some 4\<rparr>, setNextChild store123 3 (Some 4))
   \<and> LastChild group123 \<noteq> Some 4
   \<and> NextChild (setNextChild store123 3 (Some 4) 4) = NextChild (store123 4)
   \<and> detachChild group123 store123 (Some 2)
       = Some (Inr (group123, setNextChild store123 1 (Some 3)))
   \<and> NextChild (store123 2) = Some 3
   \<and> NextChild (setNextChild store123 1 (Some 3) 2) = Some 3"
proof -
  have member: "groupChildFragment (store123 4) = Some (getGroup 100)"
    by (simp add: store123_def store0_def setNextChild_def getGroup_def)
  have att: "attachChild 100 group123 store123 (Some 4)
     = Inr (group123\<lparr>LastChild := Some 4\<rparr>, setNextChild store123 3 (Some 4))"
    using member by (simp add: attachChild_later group123_first group123_last)
  have "child_list store123 (FirstChild group123) ([] @ 1 # 2 # [3])"
    unfolding group123_first using store123_list by simp
  from detachChild_later [OF this]
  have det: "detachChild group123 store123 (Some 2)
       = Some (Inr (group123, setNextChild store123 1 (Some 3)))"
    by (simp add: group123_last) (simp add: store123_def store0_def setNextChild_def)
  have slot: "NextChild (store123 2) = Some 3"
    by (simp add: store123_def store0_def setNextChild_def)
  from child_slot_not_written
    [of 100 group123 store123 4 "group123\<lparr>LastChild := Some 4\<rparr>"
      "setNextChild store123 3 (Some 4)"]
    child_slot_not_written
    [of _ group123 store123 2 _ _ group123 "setNextChild store123 1 (Some 3)"]
    att det slot
  show ?thesis
    by (simp add: group123_last)
qed

text \<open>
  C10, as stated, has no exception for the previous last child. The record built by
  \<open>TaskGroupTaskStatusRecord(child)\<close> for task 1 has task 1 as its last child;
  \<open>attachChild\<close> of task 1 on it writes the successor slot of task 1, which was
  \<open>nullptr\<close> and now holds task 1.
\<close>

theorem attachChild_last_again:
  "TaskGroupTaskStatusRecord_child store0 (Some 1)
     = Inr (TaskGroupTaskStatusRecord_new\<lparr>FirstChild := Some 1, LastChild := Some 1\<rparr>)
   \<and> NextChild (store0 1) = None
   \<and> attachChild 100 (TaskGroupTaskStatusRecord_new\<lparr>FirstChild := Some 1, LastChild := Some 1\<rparr>)
        store0 (Some 1)
       = Inr (TaskGroupTaskStatusRecord_new\<lparr>FirstChild := Some 1, LastChild := Some 1\<rparr>,
              setNextChild store0 1 (Some 1))
   \<and> NextChild (setNextChild store0 1 (Some 1) 1) = Some 1"
  by (simp add: TaskGroupTaskStatusRecord_child_def TaskGroupTaskStatusRecord_new_def
      TaskStatusRecord_init_def resetParent_def store0_task attachChild_def
      hasGroupChildFragment_def getGroup_def setNextChild_def Let_def)

end
